theory Spec2Isabelle
  imports Main "HOL-Library.FSet" "HOL-Library.Product_Lexorder"
begin

section \<open>The Minesweeper knowledge base of \<^verbatim>\<open>1_Knowledge/minesweeper/minesweeper.py\<close>\<close>

text \<open>
  A cell is a pair of Python integers. A Python \<^verbatim>\<open>set\<close> is always finite, so it is a
  finite set here (\<open>'a fset\<close>); \<^verbatim>\<open>len\<close> is \<open>fcard\<close>. A \<^verbatim>\<open>Sentence\<close> object is a record
  of its two fields.
\<close>

type_synonym cell = "int \<times> int"

record Sentence =
  cells :: "cell fset"
  count :: int

definition Sentence_init :: "cell fset \<Rightarrow> int \<Rightarrow> Sentence" where
  "Sentence_init cs n = \<lparr>cells = cs, count = n\<rparr>"

definition Sentence_known_mines :: "Sentence \<Rightarrow> cell fset" where
  "Sentence_known_mines st =
     (if count st = int (fcard (cells st)) then cells st else {||})"

definition Sentence_known_safes :: "Sentence \<Rightarrow> cell fset" where
  "Sentence_known_safes st = (if count st = 0 then cells st else {||})"

definition Sentence_mark_mine :: "Sentence \<Rightarrow> cell \<Rightarrow> Sentence" where
  "Sentence_mark_mine st c =
     (if c |\<notin>| cells st then st
      else st\<lparr>cells := cells st |-| {|c|}, count := count st - 1\<rparr>)"

definition Sentence_mark_safe :: "Sentence \<Rightarrow> cell \<Rightarrow> Sentence" where
  "Sentence_mark_safe st c =
     (if c |\<notin>| cells st then st
      else st\<lparr>cells := cells st |-| {|c|}\<rparr>)"

text \<open>
  \<^verbatim>\<open>MinesweeperAI.knowledge\<close> is a list of references to \<^verbatim>\<open>Sentence\<close> objects that are
  mutated in place, and \<^verbatim>\<open>reason_about_new_knowledge\<close> holds a reference to one of them
  while the list changes under it. So the sentences live in a store \<open>heap\<close> from
  references (natural numbers) to sentences, and \<open>knowledge\<close> is the list of references.
\<close>

type_synonym ref = nat

record MinesweeperAI =
  height :: int
  width :: int
  moves_made :: "cell fset"
  all_moves :: "cell fset"
  mines :: "cell fset"
  safes :: "cell fset"
  knowledge :: "ref list"
  heap :: "ref \<Rightarrow> Sentence"

text \<open>\<^verbatim>\<open>calculate_all_moves\<close>: each \<^verbatim>\<open>for\<close> runs over \<^verbatim>\<open>range(0, n)\<close>, that is \<open>[0..n - 1]\<close>.\<close>

definition calculate_all_moves :: "int \<Rightarrow> int \<Rightarrow> cell fset" where
  "calculate_all_moves h w =
     fset_of_list (concat (map (\<lambda>i. map (\<lambda>j. (i, j)) [0..w - 1]) [0..h - 1]))"

definition MinesweeperAI_init :: "int \<Rightarrow> int \<Rightarrow> MinesweeperAI" where
  "MinesweeperAI_init h w =
     \<lparr>height = h, width = w, moves_made = {||},
      all_moves = calculate_all_moves h w,
      mines = {||}, safes = {||}, knowledge = [],
      heap = (\<lambda>_. \<lparr>cells = {||}, count = 0\<rparr>)\<rparr>"

text \<open>\<^verbatim>\<open>for sentence in self.knowledge: sentence.mark_mine(cell)\<close>, on the store.\<close>

definition MinesweeperAI_mark_mine :: "cell \<Rightarrow> MinesweeperAI \<Rightarrow> MinesweeperAI" where
  "MinesweeperAI_mark_mine c s =
     s\<lparr>mines := finsert c (mines s),
       heap := fold (\<lambda>r h. h(r := Sentence_mark_mine (h r) c)) (knowledge s) (heap s)\<rparr>"

definition MinesweeperAI_mark_safe :: "cell \<Rightarrow> MinesweeperAI \<Rightarrow> MinesweeperAI" where
  "MinesweeperAI_mark_safe c s =
     s\<lparr>safes := finsert c (safes s),
       heap := fold (\<lambda>r h. h(r := Sentence_mark_safe (h r) c)) (knowledge s) (heap s)\<rparr>"

text \<open>
  A \<^verbatim>\<open>for\<close> loop over a Python set visits each member once, in an order the
  interpreter fixes. Where every member of a set is marked, the marking runs here in ascending
  order; lemmas \<open>mark_mines_any_order\<close> and \<open>mark_safes_any_order\<close> below show that every
  other order gives the same state.
\<close>

definition mark_mines :: "cell fset \<Rightarrow> MinesweeperAI \<Rightarrow> MinesweeperAI" where
  "mark_mines cs s = fold MinesweeperAI_mark_mine (sorted_list_of_fset cs) s"

definition mark_safes :: "cell fset \<Rightarrow> MinesweeperAI \<Rightarrow> MinesweeperAI" where
  "mark_safes cs s = fold MinesweeperAI_mark_safe (sorted_list_of_fset cs) s"

text \<open>
  \<^verbatim>\<open>get_unknown_neighbours\<close>: \<^verbatim>\<open>range(row - 1, row + 2)\<close> is \<open>[row - 1..row + 1]\<close>; rows
  and columns outside the board are skipped, and so is every cell already in \<open>safes\<close>.
\<close>

definition get_unknown_neighbours :: "MinesweeperAI \<Rightarrow> cell \<Rightarrow> cell fset" where
  "get_unknown_neighbours s c =
     (case c of (row, col) \<Rightarrow>
        fset_of_list (concat (map (\<lambda>i.
          if i < 0 \<or> i \<ge> height s then []
          else concat (map (\<lambda>j.
            if j < 0 \<or> j \<ge> width s then []
            else if (i, j) |\<notin>| safes s then [(i, j)] else [])
          [col - 1..col + 1]))
        [row - 1..row + 1])))"

text \<open>
  \<^verbatim>\<open>clean_up_empty_knowledge\<close> collects the indices of the sentences without cells, and
  pops them from the last to the first. \<open>pop i\<close> is \<^verbatim>\<open>list.pop(i)\<close> for an index in
  range (all of them are: see \<open>clean_up_empty_knowledge_filter\<close>).
\<close>

definition pop :: "nat \<Rightarrow> 'a list \<Rightarrow> 'a list" where
  "pop i xs = take i xs @ drop (Suc i) xs"

definition clean_up_empty_knowledge :: "MinesweeperAI \<Rightarrow> MinesweeperAI" where
  "clean_up_empty_knowledge s =
     (let sentences_to_clean =
            filter (\<lambda>i. fcard (cells (heap s (knowledge s ! i))) = 0) [0..<length (knowledge s)]
      in s\<lparr>knowledge := fold pop (rev sentences_to_clean) (knowledge s)\<rparr>)"

text \<open>
  One pass of the \<^verbatim>\<open>while added_knowledge\<close> loop of \<^verbatim>\<open>reason_about_new_knowledge\<close>: the
  state after the pass, and whether the loop goes round again.
\<close>

definition collect_known :: "MinesweeperAI \<Rightarrow> cell fset \<times> cell fset" where
  "collect_known s =
     fold (\<lambda>r (known_safes, known_mines).
             (known_safes |\<union>| Sentence_known_safes (heap s r),
              known_mines |\<union>| Sentence_known_mines (heap s r)))
          (knowledge s) ({||}, {||})"

definition discharge_pass :: "MinesweeperAI \<Rightarrow> MinesweeperAI \<times> bool" where
  "discharge_pass s =
     (let s1 = clean_up_empty_knowledge s;
          (known_safes, known_mines) = collect_known s1;
          previous_safes_count = fcard (safes s1);
          previous_mines_count = fcard (mines s1);
          s2 = mark_mines known_mines s1;
          s3 = mark_safes known_safes s2;
          new_safes_count = fcard (safes s3);
          new_mines_count = fcard (mines s3)
      in (s3, previous_safes_count \<noteq> new_safes_count
              \<or> previous_mines_count \<noteq> new_mines_count))"

text \<open>
  The test of the subset step,
  \<^verbatim>\<open>existing_knowledge.cells.issuperset(new_knowledge.cells) and
  existing_knowledge.cells != new_knowledge.cells\<close>, is \<open>proper_superset\<close>. Its two statements,
  on the sentence \<open>existing_knowledge\<close>, are
  \<^verbatim>\<open>existing_knowledge.cells.difference_update(new_knowledge.cells)\<close> and then
  \<^verbatim>\<open>existing_knowledge.count -= new_knowledge.count\<close>. They run only when the two
  cell sets differ, so the two references are different objects and \<open>new_knowledge\<close> is
  read unchanged.
\<close>

definition proper_superset :: "Sentence \<Rightarrow> Sentence \<Rightarrow> bool" where
  "proper_superset existing_knowledge new_knowledge =
     (cells new_knowledge |\<subseteq>| cells existing_knowledge
      \<and> cells existing_knowledge \<noteq> cells new_knowledge)"

definition subset_resolution :: "MinesweeperAI \<Rightarrow> ref \<Rightarrow> ref \<Rightarrow> MinesweeperAI" where
  "subset_resolution s existing_knowledge new_knowledge =
     (let e = heap s existing_knowledge;
          nk = heap s new_knowledge
      in s\<lparr>heap := (heap s)(existing_knowledge :=
             e\<lparr>cells := cells e |-| cells nk, count := count e - count nk\<rparr>)\<rparr>)"

text \<open>
  The iteration and the recursion of \<^verbatim>\<open>reason_about_new_knowledge\<close> run on fuel: \<open>None\<close> means
  that the fuel ran out, and it is the only way to get \<open>None\<close>, since the source raises
  nowhere. The \<^verbatim>\<open>for existing_knowledge in self.knowledge\<close> loop is Python's list
  iterator: an index \<open>i\<close> into the list as it is at that moment, which stops as soon as
  \<open>i\<close> is no longer below the length of the list.
\<close>

fun discharge_loop :: "nat \<Rightarrow> MinesweeperAI \<Rightarrow> MinesweeperAI option" where
  "discharge_loop 0 s = None"
| "discharge_loop (Suc n) s =
     (case discharge_pass s of
        (s', added_knowledge) \<Rightarrow> if added_knowledge then discharge_loop n s' else Some s')"

fun reason_about_new_knowledge :: "nat \<Rightarrow> MinesweeperAI \<Rightarrow> ref \<Rightarrow> MinesweeperAI option"
  and resolve_loop :: "nat \<Rightarrow> MinesweeperAI \<Rightarrow> ref \<Rightarrow> nat \<Rightarrow> MinesweeperAI option" where
  "reason_about_new_knowledge 0 s new_knowledge = None"
| "reason_about_new_knowledge (Suc n) s new_knowledge =
     (if fcard (cells (heap s new_knowledge)) = 0 then Some s
      else case discharge_loop n s of
             None \<Rightarrow> None
           | Some s1 \<Rightarrow> resolve_loop n s1 new_knowledge 0)"
| "resolve_loop 0 s new_knowledge i = None"
| "resolve_loop (Suc n) s new_knowledge i =
     (if i \<ge> length (knowledge s) then Some s
      else let existing_knowledge = knowledge s ! i in
        if fcard (cells (heap s existing_knowledge)) = 0
        then resolve_loop n (clean_up_empty_knowledge s) new_knowledge (Suc i)
        else if proper_superset (heap s existing_knowledge) (heap s new_knowledge)
        then
          (let s' = subset_resolution s existing_knowledge new_knowledge
           in case reason_about_new_knowledge n s' existing_knowledge of
                None \<Rightarrow> None
              | Some s'' \<Rightarrow> resolve_loop n s'' new_knowledge (Suc i))
        else resolve_loop n s new_knowledge (Suc i))"

text \<open>
  \<^verbatim>\<open>add_knowledge\<close>. The new \<^verbatim>\<open>Sentence\<close> is a new object: its reference is one that no
  sentence of \<open>knowledge\<close> has.
\<close>

definition new_ref :: "ref list \<Rightarrow> ref" where
  "new_ref rs = Suc (fold max rs 0)"

definition add_knowledge :: "nat \<Rightarrow> MinesweeperAI \<Rightarrow> cell \<Rightarrow> int \<Rightarrow> MinesweeperAI option" where
  "add_knowledge fuel s c n =
     (let s1 = s\<lparr>moves_made := finsert c (moves_made s)\<rparr>;
          s2 = MinesweeperAI_mark_safe c s1;
          unknown_neighbours = get_unknown_neighbours s2 c;
          new_knowledge = new_ref (knowledge s2);
          s3 = s2\<lparr>heap := (heap s2)(new_knowledge := Sentence_init unknown_neighbours n),
                  knowledge := knowledge s2 @ [new_knowledge]\<rparr>;
          mines_in_new_knowledge = cells (heap s3 new_knowledge) |\<inter>| mines s3;
          s4 = mark_mines mines_in_new_knowledge s3
      in reason_about_new_knowledge fuel s4 new_knowledge)"

text \<open>
  The caller's loop: one \<^verbatim>\<open>add_knowledge\<close> call for each observation \<open>(cell, count)\<close>, in
  order, each call with the same fuel.
\<close>

fun observe_all :: "nat \<Rightarrow> MinesweeperAI \<Rightarrow> (cell \<times> int) list \<Rightarrow> MinesweeperAI option" where
  "observe_all fuel s [] = Some s"
| "observe_all fuel s (ob # obs) =
     (case add_knowledge fuel s (fst ob) (snd ob) of
        None \<Rightarrow> None
      | Some s' \<Rightarrow> observe_all fuel s' obs)"

text \<open>
  \<^verbatim>\<open>make_random_move\<close> returns the first member of \<^verbatim>\<open>remaining_moves\<close>, in the order the
  \<^verbatim>\<open>for\<close> loop visits that set, that is not in \<open>mines\<close>. The order in which Python
  iterates over a set is the interpreter's, not this program's: it is the parameter
  \<open>iter\<close>. The function calls nothing of the \<^verbatim>\<open>random\<close> module and assigns to no field.
\<close>

definition make_random_move :: "(cell fset \<Rightarrow> cell list) \<Rightarrow> MinesweeperAI \<Rightarrow> cell option" where
  "make_random_move iter s =
     (let remaining_moves = all_moves s |-| moves_made s
      in find (\<lambda>move. \<not> move |\<in>| mines s) (iter remaining_moves))"

subsection \<open>The game that answers the observations\<close>

text \<open>
  Of the class \<^verbatim>\<open>Minesweeper\<close>, the fields that \<^verbatim>\<open>is_mine\<close> and \<^verbatim>\<open>nearby_mines\<close> read:
  the two dimensions and the board, a list of rows of booleans. \<^verbatim>\<open>__init__\<close> builds
  \<open>height\<close> rows of \<open>width\<close> entries (\<open>Minesweeper_wf\<close>) and places the mines at random.
\<close>

record Minesweeper =
  game_height :: int
  game_width :: int
  board :: "bool list list"

definition Minesweeper_wf :: "Minesweeper \<Rightarrow> bool" where
  "Minesweeper_wf g =
     (int (length (board g)) = game_height g
      \<and> list_all (\<lambda>row. int (length row) = game_width g) (board g))"

definition in_board :: "Minesweeper \<Rightarrow> cell \<Rightarrow> bool" where
  "in_board g c = (0 \<le> fst c \<and> fst c < game_height g \<and> 0 \<le> snd c \<and> snd c < game_width g)"

text \<open>\<^verbatim>\<open>is_mine\<close> reads \<^verbatim>\<open>self.board[i][j]\<close>; it is used for cells of the board only.\<close>

definition is_mine :: "Minesweeper \<Rightarrow> cell \<Rightarrow> bool" where
  "is_mine g c = (case c of (i, j) \<Rightarrow> board g ! nat i ! nat j)"

definition nearby_mines :: "Minesweeper \<Rightarrow> cell \<Rightarrow> int" where
  "nearby_mines g c =
     sum_list (concat (map (\<lambda>i. map (\<lambda>j.
        if (i, j) = c then 0
        else if 0 \<le> i \<and> i < game_height g \<and> 0 \<le> j \<and> j < game_width g
             then (if board g ! nat i ! nat j then 1 else 0)
             else 0)
        [snd c - 1..snd c + 1]) [fst c - 1..fst c + 1]))"

text \<open>
  An observation that the game gives: a cell of the board that is not a mine, with
  the count \<^verbatim>\<open>nearby_mines\<close> returns for it.
\<close>

definition consistent_obs :: "Minesweeper \<Rightarrow> cell \<times> int \<Rightarrow> bool" where
  "consistent_obs g ob =
     (in_board g (fst ob) \<and> \<not> is_mine g (fst ob) \<and> snd ob = nearby_mines g (fst ob))"

subsection \<open>Closed forms used in the proofs\<close>

text \<open>
  \<open>map_heap rs f h\<close> is the store after \<^verbatim>\<open>for sentence in self.knowledge\<close> has applied
  \<open>f\<close> to every sentence of the list \<open>rs\<close>; \<open>remove_mines\<close> and \<open>remove_safes\<close> are what a
  sentence becomes once every cell of a set has been marked in it.
\<close>

definition map_heap :: "ref list \<Rightarrow> (Sentence \<Rightarrow> Sentence) \<Rightarrow> (ref \<Rightarrow> Sentence) \<Rightarrow> ref \<Rightarrow> Sentence" where
  "map_heap rs f h = (\<lambda>r. if r \<in> set rs then f (h r) else h r)"

definition remove_mines :: "cell fset \<Rightarrow> Sentence \<Rightarrow> Sentence" where
  "remove_mines cs st =
     st\<lparr>cells := cells st |-| cs, count := count st - int (fcard (cells st |\<inter>| cs))\<rparr>"

definition remove_safes :: "cell fset \<Rightarrow> Sentence \<Rightarrow> Sentence" where
  "remove_safes cs st = st\<lparr>cells := cells st |-| cs\<rparr>"


text \<open>
  \<open>add_knowledge_start\<close> is the state of \<^verbatim>\<open>add_knowledge\<close> just before its last line, the call
  of \<^verbatim>\<open>reason_about_new_knowledge\<close>. \<open>extends\<close> and \<open>shrinks\<close> relate a state to a
  later one: the two sets of known cells only grow and the board stays the same; the sentences
  only lose cells and the list of sentences only loses members.
\<close>

definition add_knowledge_start :: "MinesweeperAI \<Rightarrow> cell \<Rightarrow> int \<Rightarrow> MinesweeperAI" where
  "add_knowledge_start s c n =
     (let s1 = s\<lparr>moves_made := finsert c (moves_made s)\<rparr>;
          s2 = MinesweeperAI_mark_safe c s1;
          unknown_neighbours = get_unknown_neighbours s2 c;
          new_knowledge = new_ref (knowledge s2);
          s3 = s2\<lparr>heap := (heap s2)(new_knowledge := Sentence_init unknown_neighbours n),
                  knowledge := knowledge s2 @ [new_knowledge]\<rparr>;
          mines_in_new_knowledge = cells (heap s3 new_knowledge) |\<inter>| mines s3
      in mark_mines mines_in_new_knowledge s3)"

definition extends :: "MinesweeperAI \<Rightarrow> MinesweeperAI \<Rightarrow> bool" where
  "extends s s' =
     (height s' = height s \<and> width s' = width s \<and> all_moves s' = all_moves s
      \<and> moves_made s' = moves_made s
      \<and> mines s |\<subseteq>| mines s' \<and> safes s |\<subseteq>| safes s')"

definition shrinks :: "MinesweeperAI \<Rightarrow> MinesweeperAI \<Rightarrow> bool" where
  "shrinks s s' =
     ((\<forall>r. cells (heap s' r) |\<subseteq>| cells (heap s r))
      \<and> set (knowledge s') \<subseteq> set (knowledge s)
      \<and> length (knowledge s') \<le> length (knowledge s))"

text \<open>
  \<open>slots s nk\<close> counts the cells still held by the sentences of \<open>knowledge\<close> and by the
  sentence \<open>nk\<close>: the measure that decreases from pass to pass and from call to call.
\<close>

definition slots :: "MinesweeperAI \<Rightarrow> ref \<Rightarrow> nat" where
  "slots s nk = (\<Sum>r\<in>insert nk (set (knowledge s)). fcard (cells (heap s r)))"

text \<open>\<open>sentences s\<close> lists the sentences of \<open>knowledge\<close>, each as its cells and its count.\<close>

definition sentences :: "MinesweeperAI \<Rightarrow> (cell fset \<times> int) list" where
  "sentences s = map (\<lambda>r. (cells (heap s r), count (heap s r))) (knowledge s)"

text \<open>
  \<open>mine_cells g\<close> is the set of the cells of the board of \<open>g\<close> that hold a mine. A sentence
  is true of it when its count is the number of its cells that hold a mine; \<open>sound g s\<close> says
  that everything the knowledge base \<open>s\<close> holds is true of the game \<open>g\<close>: the board has the
  game's dimensions, every known mine is a mine, no known safe cell is one, and every sentence
  of the store is true.
\<close>

definition mine_cells :: "Minesweeper \<Rightarrow> cell set" where
  "mine_cells g = {c. in_board g c \<and> is_mine g c}"

definition sound_sentence :: "cell set \<Rightarrow> Sentence \<Rightarrow> bool" where
  "sound_sentence M st = (count st = int (card (fset (cells st) \<inter> M)))"

definition sound :: "Minesweeper \<Rightarrow> MinesweeperAI \<Rightarrow> bool" where
  "sound g s =
     (height s = game_height g \<and> width s = game_width g
      \<and> fset (mines s) \<subseteq> mine_cells g
      \<and> fset (safes s) \<inter> mine_cells g = {}
      \<and> (\<forall>r. sound_sentence (mine_cells g) (heap s r)))"

text \<open>An example game: one row of three cells, the mine in the last one.\<close>

definition one_row_game :: Minesweeper where
  "one_row_game = \<lparr>game_height = 1, game_width = 3, board = [[False, False, True]]\<rparr>"

section \<open>Marking every cell of a set\<close>

lemma map_heap_apply:
  "map_heap rs f h r = (if r \<in> set rs then f (h r) else h r)"
  by (simp add: map_heap_def)

lemma map_heap_ident: "(\<And>x. f x = x) \<Longrightarrow> map_heap rs f h = h"
  by (rule ext) (simp add: map_heap_apply)

lemma map_heap_comp: "map_heap rs g (map_heap rs f h) = map_heap rs (\<lambda>x. g (f x)) h"
  by (rule ext) (simp add: map_heap_apply)

lemma fold_upd_idem:
  assumes "\<And>x. f (f x) = f x"
  shows "fold (\<lambda>r h. h(r := f (h r))) rs h = map_heap rs f h"
proof (induction rs arbitrary: h)
  case Nil
  then show ?case by (simp add: map_heap_def)
next
  case (Cons a rs)
  have "fold (\<lambda>r h. h(r := f (h r))) (a # rs) h
        = fold (\<lambda>r h. h(r := f (h r))) rs (h(a := f (h a)))"
    by (simp only: fold_simps)
  also have "\<dots> = map_heap rs f (h(a := f (h a)))"
    by (rule Cons.IH)
  also have "\<dots> = map_heap (a # rs) f h"
    by (rule ext) (simp add: map_heap_apply assms)
  finally show ?case .
qed

lemma Sentence_mark_mine_idem:
  "Sentence_mark_mine (Sentence_mark_mine st c) c = Sentence_mark_mine st c"
  by (simp add: Sentence_mark_mine_def)

lemma Sentence_mark_safe_idem:
  "Sentence_mark_safe (Sentence_mark_safe st c) c = Sentence_mark_safe st c"
  by (simp add: Sentence_mark_safe_def)

lemma MinesweeperAI_mark_mine_eq:
  "MinesweeperAI_mark_mine c s =
     s\<lparr>mines := finsert c (mines s),
       heap := map_heap (knowledge s) (\<lambda>st. Sentence_mark_mine st c) (heap s)\<rparr>"
  unfolding MinesweeperAI_mark_mine_def
  by (simp add: fold_upd_idem[where f = "\<lambda>st. Sentence_mark_mine st c"] Sentence_mark_mine_idem)

lemma MinesweeperAI_mark_safe_eq:
  "MinesweeperAI_mark_safe c s =
     s\<lparr>safes := finsert c (safes s),
       heap := map_heap (knowledge s) (\<lambda>st. Sentence_mark_safe st c) (heap s)\<rparr>"
  unfolding MinesweeperAI_mark_safe_def
  by (simp add: fold_upd_idem[where f = "\<lambda>st. Sentence_mark_safe st c"] Sentence_mark_safe_idem)

lemma remove_mines_step:
  "remove_mines cs (Sentence_mark_mine st x) = remove_mines (finsert x cs) st"
proof (cases "x |\<in>| cells st")
  case False
  then have "cells st |\<inter>| finsert x cs = cells st |\<inter>| cs"
    by auto
  moreover from False have "cells st |-| finsert x cs = cells st |-| cs"
    by auto
  ultimately show ?thesis using False
    by (simp add: remove_mines_def Sentence_mark_mine_def)
next
  case True
  have e: "cells st |\<inter>| finsert x cs = finsert x ((cells st |-| {|x|}) |\<inter>| cs)"
    using True by auto
  have "fcard (cells st |\<inter>| finsert x cs) = Suc (fcard ((cells st |-| {|x|}) |\<inter>| cs))"
    unfolding e by (simp add: fcard_finsert_disjoint)
  moreover have "cells st |-| {|x|} |-| cs = cells st |-| finsert x cs"
    by auto
  ultimately show ?thesis using True
    by (simp add: remove_mines_def Sentence_mark_mine_def)
qed

lemma remove_mines_empty: "remove_mines {||} st = st"
  by (simp add: remove_mines_def)

lemma fold_mark_mine_eq:
  "fold MinesweeperAI_mark_mine xs s =
     s\<lparr>mines := mines s |\<union>| fset_of_list xs,
       heap := map_heap (knowledge s) (remove_mines (fset_of_list xs)) (heap s)\<rparr>"
proof (induction xs arbitrary: s)
  case Nil
  show ?case by (simp add: remove_mines_empty map_heap_ident)
next
  case (Cons x xs)
  have "fold MinesweeperAI_mark_mine (x # xs) s
        = fold MinesweeperAI_mark_mine xs (MinesweeperAI_mark_mine x s)"
    by (simp only: fold_simps)
  also have "\<dots> = (MinesweeperAI_mark_mine x s)
       \<lparr>mines := mines (MinesweeperAI_mark_mine x s) |\<union>| fset_of_list xs,
        heap := map_heap (knowledge (MinesweeperAI_mark_mine x s))
                  (remove_mines (fset_of_list xs)) (heap (MinesweeperAI_mark_mine x s))\<rparr>"
    by (rule Cons.IH)
  also have "\<dots> = s\<lparr>mines := mines s |\<union>| fset_of_list (x # xs),
       heap := map_heap (knowledge s) (remove_mines (fset_of_list (x # xs))) (heap s)\<rparr>"
    by (simp add: MinesweeperAI_mark_mine_eq map_heap_comp remove_mines_step)
  finally show ?case .
qed

lemma remove_safes_step:
  "remove_safes cs (Sentence_mark_safe st x) = remove_safes (finsert x cs) st"
proof -
  have "cells st |-| {|x|} |-| cs = cells st |-| finsert x cs"
    by auto
  moreover have "x |\<notin>| cells st \<Longrightarrow> cells st |-| finsert x cs = cells st |-| cs"
    by auto
  ultimately show ?thesis
    by (simp add: remove_safes_def Sentence_mark_safe_def)
qed

lemma fold_mark_safe_eq:
  "fold MinesweeperAI_mark_safe xs s =
     s\<lparr>safes := safes s |\<union>| fset_of_list xs,
       heap := map_heap (knowledge s) (remove_safes (fset_of_list xs)) (heap s)\<rparr>"
proof (induction xs arbitrary: s)
  case Nil
  show ?case by (simp add: remove_safes_def map_heap_ident)
next
  case (Cons x xs)
  have "fold MinesweeperAI_mark_safe (x # xs) s
        = fold MinesweeperAI_mark_safe xs (MinesweeperAI_mark_safe x s)"
    by (simp only: fold_simps)
  also have "\<dots> = (MinesweeperAI_mark_safe x s)
       \<lparr>safes := safes (MinesweeperAI_mark_safe x s) |\<union>| fset_of_list xs,
        heap := map_heap (knowledge (MinesweeperAI_mark_safe x s))
                  (remove_safes (fset_of_list xs)) (heap (MinesweeperAI_mark_safe x s))\<rparr>"
    by (rule Cons.IH)
  also have "\<dots> = s\<lparr>safes := safes s |\<union>| fset_of_list (x # xs),
       heap := map_heap (knowledge s) (remove_safes (fset_of_list (x # xs))) (heap s)\<rparr>"
    by (simp add: MinesweeperAI_mark_safe_eq map_heap_comp remove_safes_step)
  finally show ?case .
qed

lemma mark_mines_eq:
  "mark_mines cs s =
     s\<lparr>mines := mines s |\<union>| cs, heap := map_heap (knowledge s) (remove_mines cs) (heap s)\<rparr>"
  by (simp add: mark_mines_def fold_mark_mine_eq)

lemma mark_safes_eq:
  "mark_safes cs s =
     s\<lparr>safes := safes s |\<union>| cs, heap := map_heap (knowledge s) (remove_safes cs) (heap s)\<rparr>"
  by (simp add: mark_safes_def fold_mark_safe_eq)

lemma mark_mines_any_order:
  "fset_of_list xs = cs \<Longrightarrow> fold MinesweeperAI_mark_mine xs s = mark_mines cs s"
  by (simp add: mark_mines_eq fold_mark_mine_eq)

lemma mark_safes_any_order:
  "fset_of_list xs = cs \<Longrightarrow> fold MinesweeperAI_mark_safe xs s = mark_safes cs s"
  by (simp add: mark_safes_eq fold_mark_safe_eq)

section \<open>More fuel changes nothing\<close>

lemma discharge_loop_fuel_mono:
  "discharge_loop n s = Some s' \<Longrightarrow> n \<le> m \<Longrightarrow> discharge_loop m s = Some s'"
proof (induction n s arbitrary: m rule: discharge_loop.induct)
  case (1 s)
  then show ?case by simp
next
  case (2 n s)
  from "2.prems" obtain k where m: "m = Suc k" and nk: "n \<le> k"
    by (cases m) auto
  obtain t b where dp: "discharge_pass s = (t, b)" by (cases "discharge_pass s")
  show ?case
  proof (cases b)
    case True
    with "2.prems" dp have "discharge_loop n t = Some s'" by simp
    with "2.IH"[OF dp[symmetric] True _ nk] have "discharge_loop k t = Some s'" by simp
    with dp True m show ?thesis by simp
  next
    case False
    with "2.prems" dp m show ?thesis by simp
  qed
qed

lemma reason_resolve_fuel_mono:
  "reason_about_new_knowledge n s nk = Some s' \<Longrightarrow> n \<le> m
     \<Longrightarrow> reason_about_new_knowledge m s nk = Some s'"
  "resolve_loop n s nk i = Some s' \<Longrightarrow> n \<le> m \<Longrightarrow> resolve_loop m s nk i = Some s'"
proof (induction n s nk and n s nk i arbitrary: m s' and m s'
       rule: reason_about_new_knowledge_resolve_loop.induct)
  case (1 s nk)
  then show ?case by simp
next
  case (2 n s nk)
  from "2.prems" obtain k where m: "m = Suc k" and nk: "n \<le> k"
    by (cases m) auto
  show ?case
  proof (cases "fcard (cells (heap s nk)) = 0")
    case True
    with "2.prems" m show ?thesis by simp
  next
    case False
    with "2.prems" obtain s1 where d: "discharge_loop n s = Some s1"
      and r: "resolve_loop n s1 nk 0 = Some s'"
      by (auto split: option.splits)
    from discharge_loop_fuel_mono[OF d nk] have d': "discharge_loop k s = Some s1" .
    from "2.IH"[OF False d r nk] have "resolve_loop k s1 nk 0 = Some s'" .
    with d' False m show ?thesis by simp
  qed
next
  case (3 s nk i)
  then show ?case by simp
next
  case (4 n s nk i)
  from "4.prems" obtain k where m: "m = Suc k" and nk: "n \<le> k"
    by (cases m) auto
  show ?case
  proof (cases "i \<ge> length (knowledge s)")
    case True
    with "4.prems" m show ?thesis by simp
  next
    case inr: False
    define ek where "ek = knowledge s ! i"
    show ?thesis
    proof (cases "fcard (cells (heap s ek)) = 0")
      case True
      with "4.prems" inr have "resolve_loop n (clean_up_empty_knowledge s) nk (Suc i) = Some s'"
        by (simp add: ek_def Let_def)
      from "4.IH"(1)[OF inr ek_def True this nk] inr True m show ?thesis
        by (simp add: ek_def Let_def)
    next
      case ne: False
      show ?thesis
      proof (cases "proper_superset (heap s ek) (heap s nk)")
        case True
        define t where "t = subset_resolution s ek nk"
        from "4.prems" inr ne True obtain u where
          r: "reason_about_new_knowledge n t ek = Some u" and l: "resolve_loop n u nk (Suc i) = Some s'"
          by (simp add: ek_def Let_def t_def split: option.splits)
        from "4.IH"(2)[OF inr ek_def ne True t_def r nk]
        have r': "reason_about_new_knowledge k t ek = Some u" .
        from "4.IH"(3)[OF inr ek_def ne True t_def r l nk]
        have l': "resolve_loop k u nk (Suc i) = Some s'" .
        from r' l' inr ne True m show ?thesis
          by (simp add: ek_def Let_def t_def)
      next
        case False
        with "4.prems" inr ne have "resolve_loop n s nk (Suc i) = Some s'"
          by (simp add: ek_def Let_def)
        from "4.IH"(4)[OF inr ek_def ne False this nk] inr ne False m show ?thesis
          by (simp add: ek_def Let_def)
      qed
    qed
  qed
qed

section \<open>Cleaning up and collecting\<close>

lemma pop_append: "i < length xs \<Longrightarrow> pop i (xs @ ys) = pop i xs @ ys"
  by (simp add: pop_def)

lemma length_pop: "i < length xs \<Longrightarrow> length (pop i xs) = length xs - 1"
  by (simp add: pop_def)

lemma fold_pop_append:
  "sorted_wrt (>) js \<Longrightarrow> \<forall>j\<in>set js. j < length xs
     \<Longrightarrow> fold pop js (xs @ ys) = fold pop js xs @ ys"
proof (induction js arbitrary: xs)
  case Nil
  then show ?case by simp
next
  case (Cons j js)
  from Cons.prems have j: "j < length xs" and lt: "\<forall>k\<in>set js. k < j" and st: "sorted_wrt (>) js"
    by auto
  from lt j have "\<forall>k\<in>set js. k < length (pop j xs)"
    by (auto simp: length_pop)
  from Cons.IH[OF st this] j show ?case
    by (simp add: pop_append)
qed

lemma fold_pop_filter:
  "fold pop (rev (filter (\<lambda>i. P (xs ! i)) [0..<length xs])) xs = filter (\<lambda>x. \<not> P x) xs"
proof (induction xs rule: rev_induct)
  case Nil
  then show ?case by simp
next
  case (snoc x xs)
  let ?L = "filter (\<lambda>i. P (xs ! i)) [0..<length xs]"
  have L: "filter (\<lambda>i. P ((xs @ [x]) ! i)) [0..<length xs] = ?L"
    by (rule filter_cong) (auto simp: nth_append)
  have dec: "sorted_wrt (>) (rev ?L)"
    by (simp add: sorted_wrt_rev sorted_wrt_filter)
  have bnd: "\<forall>j\<in>set (rev ?L). j < length xs"
    by auto
  show ?case
  proof (cases "P x")
    case True
    then have "fold pop (rev (filter (\<lambda>i. P ((xs @ [x]) ! i)) [0..<length (xs @ [x])])) (xs @ [x])
               = fold pop (rev ?L) (pop (length xs) (xs @ [x]))"
      by (simp add: L)
    also have "pop (length xs) (xs @ [x]) = xs"
      by (simp add: pop_def)
    finally show ?thesis using True snoc.IH by simp
  next
    case False
    then have "fold pop (rev (filter (\<lambda>i. P ((xs @ [x]) ! i)) [0..<length (xs @ [x])])) (xs @ [x])
               = fold pop (rev ?L) (xs @ [x])"
      by (simp add: L)
    also have "\<dots> = fold pop (rev ?L) xs @ [x]"
      by (rule fold_pop_append[OF dec bnd])
    finally show ?thesis using False snoc.IH by simp
  qed
qed

lemma clean_up_empty_knowledge_filter:
  "clean_up_empty_knowledge s =
     s\<lparr>knowledge := filter (\<lambda>r. cells (heap s r) \<noteq> {||}) (knowledge s)\<rparr>"
proof -
  have "fold pop (rev (filter (\<lambda>i. fcard (cells (heap s (knowledge s ! i))) = 0)
                        [0..<length (knowledge s)])) (knowledge s)
        = filter (\<lambda>r. \<not> fcard (cells (heap s r)) = 0) (knowledge s)"
    by (rule fold_pop_filter[where P = "\<lambda>r. fcard (cells (heap s r)) = 0"])
  then show ?thesis
    by (simp add: clean_up_empty_knowledge_def)
qed

lemma collect_known_fold:
  "fold (\<lambda>r (known_safes, known_mines).
             (known_safes |\<union>| Sentence_known_safes (h r),
              known_mines |\<union>| Sentence_known_mines (h r))) rs (a, b)
   = (a |\<union>| ffUnion (fset_of_list (map (\<lambda>r. Sentence_known_safes (h r)) rs)),
      b |\<union>| ffUnion (fset_of_list (map (\<lambda>r. Sentence_known_mines (h r)) rs)))"
  by (induction rs arbitrary: a b) (auto simp: funion_assoc)

lemma collect_known_eq:
  "collect_known s =
     (ffUnion (fset_of_list (map (\<lambda>r. Sentence_known_safes (heap s r)) (knowledge s))),
      ffUnion (fset_of_list (map (\<lambda>r. Sentence_known_mines (heap s r)) (knowledge s))))"
  by (simp add: collect_known_def collect_known_fold)

section \<open>What every step keeps, the whole run keeps\<close>

lemma discharge_loop_rel:
  assumes refl: "\<And>s. R s s" and trans: "\<And>s t u. R s t \<Longrightarrow> R t u \<Longrightarrow> R s u"
    and pass: "\<And>s. R s (fst (discharge_pass s))"
  shows "discharge_loop n s = Some s' \<Longrightarrow> R s s'"
proof (induction n s rule: discharge_loop.induct)
  case (1 s)
  then show ?case by simp
next
  case (2 n s)
  obtain t b where dp: "discharge_pass s = (t, b)" by (cases "discharge_pass s")
  from pass[of s] dp have st: "R s t" by simp
  show ?case
  proof (cases b)
    case True
    with "2.prems" dp have "discharge_loop n t = Some s'" by simp
    from "2.IH"[OF dp[symmetric] True this] st show ?thesis by (blast intro: trans)
  next
    case False
    with "2.prems" dp st show ?thesis by simp
  qed
qed

lemma reason_resolve_rel:
  assumes refl: "\<And>s. R s s" and trans: "\<And>s t u. R s t \<Longrightarrow> R t u \<Longrightarrow> R s u"
    and clean: "\<And>s. R s (clean_up_empty_knowledge s)"
    and pass: "\<And>s. R s (fst (discharge_pass s))"
    and res: "\<And>s i nk. i < length (knowledge s)
                \<Longrightarrow> cells (heap s (knowledge s ! i)) \<noteq> {||}
                \<Longrightarrow> proper_superset (heap s (knowledge s ! i)) (heap s nk)
                \<Longrightarrow> R s (subset_resolution s (knowledge s ! i) nk)"
  shows "reason_about_new_knowledge n s nk = Some s' \<Longrightarrow> R s s'"
    and "resolve_loop n s nk i = Some s' \<Longrightarrow> R s s'"
proof (induction n s nk and n s nk i arbitrary: s' and s'
       rule: reason_about_new_knowledge_resolve_loop.induct)
  case (1 s nk)
  then show ?case by simp
next
  case (2 n s nk)
  show ?case
  proof (cases "fcard (cells (heap s nk)) = 0")
    case True
    with "2.prems" refl show ?thesis by simp
  next
    case False
    with "2.prems" obtain s1 where d: "discharge_loop n s = Some s1"
      and r: "resolve_loop n s1 nk 0 = Some s'"
      by (auto split: option.splits)
    from discharge_loop_rel[of R, OF refl trans pass d] have "R s s1" .
    with "2.IH"[OF False d r] show ?thesis by (blast intro: trans)
  qed
next
  case (3 s nk i)
  then show ?case by simp
next
  case (4 n s nk i)
  show ?case
  proof (cases "i \<ge> length (knowledge s)")
    case True
    with "4.prems" refl show ?thesis by simp
  next
    case inr: False
    define ek where "ek = knowledge s ! i"
    show ?thesis
    proof (cases "fcard (cells (heap s ek)) = 0")
      case True
      with "4.prems" inr have "resolve_loop n (clean_up_empty_knowledge s) nk (Suc i) = Some s'"
        by (simp add: ek_def Let_def)
      from "4.IH"(1)[OF inr ek_def True this] clean[of s] show ?thesis
        by (blast intro: trans)
    next
      case ne: False
      show ?thesis
      proof (cases "proper_superset (heap s ek) (heap s nk)")
        case True
        define t where "t = subset_resolution s ek nk"
        from "4.prems" inr ne True obtain u where
          r: "reason_about_new_knowledge n t ek = Some u" and l: "resolve_loop n u nk (Suc i) = Some s'"
          by (simp add: ek_def Let_def t_def split: option.splits)
        from inr ne True have "R s t"
          unfolding t_def ek_def by (intro res) (auto simp: ek_def)
        moreover from "4.IH"(2)[OF inr ek_def ne True t_def r] have "R t u" .
        moreover from "4.IH"(3)[OF inr ek_def ne True t_def r l] have "R u s'" .
        ultimately show ?thesis by (blast intro: trans)
      next
        case False
        with "4.prems" inr ne have "resolve_loop n s nk (Suc i) = Some s'"
          by (simp add: ek_def Let_def)
        from "4.IH"(4)[OF inr ek_def ne False this] show ?thesis .
      qed
    qed
  qed
qed

section \<open>The known cells only grow\<close>

lemma discharge_pass_fst:
  "fst (discharge_pass s) =
     mark_safes (fst (collect_known (clean_up_empty_knowledge s)))
       (mark_mines (snd (collect_known (clean_up_empty_knowledge s))) (clean_up_empty_knowledge s))"
  by (simp add: discharge_pass_def Let_def split: prod.splits)

lemma discharge_pass_snd:
  "snd (discharge_pass s) =
     (fcard (safes s) \<noteq> fcard (safes s |\<union>| fst (collect_known (clean_up_empty_knowledge s)))
      \<or> fcard (mines s) \<noteq> fcard (mines s |\<union>| snd (collect_known (clean_up_empty_knowledge s))))"
  by (simp add: discharge_pass_def Let_def mark_mines_eq mark_safes_eq
      clean_up_empty_knowledge_filter split: prod.splits)

lemma add_knowledge_eq:
  "add_knowledge fuel s c n =
     reason_about_new_knowledge fuel (add_knowledge_start s c n) (new_ref (knowledge s))"
  by (simp add: add_knowledge_def add_knowledge_start_def Let_def MinesweeperAI_mark_safe_eq)

subsection \<open>extends\<close>

lemma extends_refl: "extends s s"
  by (simp add: extends_def)

lemma extends_trans: "extends s t \<Longrightarrow> extends t u \<Longrightarrow> extends s u"
  by (auto simp: extends_def)

lemma extends_clean: "extends s (clean_up_empty_knowledge s)"
  by (simp add: extends_def clean_up_empty_knowledge_filter)

lemma extends_pass: "extends s (fst (discharge_pass s))"
  by (simp add: extends_def discharge_pass_fst mark_mines_eq mark_safes_eq
      clean_up_empty_knowledge_filter)

lemma extends_res: "extends s (subset_resolution s ek nk)"
  by (simp add: extends_def subset_resolution_def Let_def)

lemma reason_extends:
  "reason_about_new_knowledge n s nk = Some s' \<Longrightarrow> extends s s'"
  by (rule reason_resolve_rel(1)[of extends, OF extends_refl extends_trans extends_clean
        extends_pass extends_res])

lemma add_knowledge_start_fields:
  "height (add_knowledge_start s c n) = height s"
  "width (add_knowledge_start s c n) = width s"
  "all_moves (add_knowledge_start s c n) = all_moves s"
  "moves_made (add_knowledge_start s c n) = finsert c (moves_made s)"
  "safes (add_knowledge_start s c n) = finsert c (safes s)"
  "mines s |\<subseteq>| mines (add_knowledge_start s c n)"
  "knowledge (add_knowledge_start s c n) = knowledge s @ [new_ref (knowledge s)]"
  by (simp_all add: add_knowledge_start_def Let_def MinesweeperAI_mark_safe_eq mark_mines_eq)

lemma add_knowledge_fields:
  assumes "add_knowledge fuel s c n = Some s'"
  shows "height s' = height s" "width s' = width s" "all_moves s' = all_moves s"
    "moves_made s' = finsert c (moves_made s)"
    "finsert c (safes s) |\<subseteq>| safes s'" "mines s |\<subseteq>| mines s'"
proof -
  define t where "t = add_knowledge_start s c n"
  from assms have e: "extends t s'"
    unfolding t_def by (simp add: add_knowledge_eq reason_extends)
  have t: "height t = height s" "width t = width s" "all_moves t = all_moves s"
    "moves_made t = finsert c (moves_made s)" "safes t = finsert c (safes s)"
    "mines s |\<subseteq>| mines t"
    unfolding t_def by (rule add_knowledge_start_fields)+
  from e t(1) show "height s' = height s" by (simp add: extends_def)
  from e t(2) show "width s' = width s" by (simp add: extends_def)
  from e t(3) show "all_moves s' = all_moves s" by (simp add: extends_def)
  from e t(4) show "moves_made s' = finsert c (moves_made s)" by (simp add: extends_def)
  from e have "safes t |\<subseteq>| safes s'" by (simp add: extends_def)
  with t(5) show "finsert c (safes s) |\<subseteq>| safes s'" by simp
  from e have "mines t |\<subseteq>| mines s'" by (simp add: extends_def)
  with t(6) show "mines s |\<subseteq>| mines s'" by (rule order_trans)
qed

lemma add_knowledge_fuel_mono:
  "add_knowledge n s c k = Some s' \<Longrightarrow> n \<le> m \<Longrightarrow> add_knowledge m s c k = Some s'"
  unfolding add_knowledge_eq by (rule reason_resolve_fuel_mono(1))

lemma observe_all_fuel_mono:
  "observe_all n s obs = Some s' \<Longrightarrow> n \<le> m \<Longrightarrow> observe_all m s obs = Some s'"
proof (induction obs arbitrary: s)
  case Nil
  then show ?case by simp
next
  case (Cons ob obs)
  from Cons.prems obtain t where a: "add_knowledge n s (fst ob) (snd ob) = Some t"
    and r: "observe_all n t obs = Some s'"
    by (simp split: option.splits)
  have "add_knowledge m s (fst ob) (snd ob) = Some t"
    by (rule add_knowledge_fuel_mono[OF a Cons.prems(2)])
  moreover have "observe_all m t obs = Some s'"
    by (rule Cons.IH[OF r Cons.prems(2)])
  ultimately show ?case by simp
qed

lemma observe_all_grows:
  "observe_all n s obs = Some s' \<Longrightarrow> safes s |\<subseteq>| safes s' \<and> mines s |\<subseteq>| mines s'"
proof (induction obs arbitrary: s)
  case Nil
  then show ?case by simp
next
  case (Cons ob obs)
  from Cons.prems obtain t where a: "add_knowledge n s (fst ob) (snd ob) = Some t"
    and r: "observe_all n t obs = Some s'"
    by (simp split: option.splits)
  from add_knowledge_fields(5)[OF a] have "safes s |\<subseteq>| safes t"
    by simp
  moreover note add_knowledge_fields(6)[OF a]
  moreover from Cons.IH[OF r] have "safes t |\<subseteq>| safes s'" "mines t |\<subseteq>| mines s'"
    by simp_all
  ultimately show ?case by (blast intro: order_trans)
qed

section \<open>Monotone knowledge and a deterministic random move\<close>

text \<open>
  C9. Across any sequence of \<^verbatim>\<open>add_knowledge\<close> calls, every cell that is in \<open>safes\<close>
  before the calls is in \<open>safes\<close> after them, and every cell that is in \<open>mines\<close> before is in
  \<open>mines\<close> after.
\<close>

theorem known_cells_monotone:
  "observe_all fuel s obs = Some s' \<Longrightarrow> safes s |\<subseteq>| safes s' \<and> mines s |\<subseteq>| mines s'"
  by (rule observe_all_grows)

theorem known_cells_monotone_witness:
  "observe_all 10 (MinesweeperAI_init 2 2) [((0, 0), 3)] \<noteq> None
   \<and> observe_all 10 (the (observe_all 10 (MinesweeperAI_init 2 2) [((0, 0), 3)])) [((0, 1), 0)] \<noteq> None
   \<and> mines (the (observe_all 10 (MinesweeperAI_init 2 2) [((0, 0), 3)])) = {|(0, 1), (1, 0), (1, 1)|}
   \<and> {|(0, 1), (1, 0), (1, 1)|} |\<subseteq>|
       mines (the (observe_all 10 (the (observe_all 10 (MinesweeperAI_init 2 2) [((0, 0), 3)]))
                     [((0, 1), 0)]))"
proof -
  define s where "s = the (observe_all 10 (MinesweeperAI_init 2 2) [((0, 0), 3)])"
  define s' where "s' = the (observe_all 10 s [((0, 1), 0)])"
  have a: "observe_all 10 (MinesweeperAI_init 2 2) [((0, 0), 3)] \<noteq> None"
    by code_simp
  have m: "mines (the (observe_all 10 (MinesweeperAI_init 2 2) [((0, 0), 3)]))
           = {|(0, 1), (1, 0), (1, 1)|}"
    by code_simp
  have b: "observe_all 10 (the (observe_all 10 (MinesweeperAI_init 2 2) [((0, 0), 3)]))
             [((0, 1), 0)] \<noteq> None"
    by code_simp
  from b have "observe_all 10 s [((0, 1), 0)] = Some s'"
    unfolding s'_def s_def by simp
  from known_cells_monotone[OF this] have "mines s |\<subseteq>| mines s'" by simp
  with a b m show ?thesis unfolding s_def s'_def by simp
qed

text \<open>
  C10. \<^verbatim>\<open>make_random_move\<close> takes no random input: it is a function of the state, and on two
  states with the same board dimensions (and so the same \<open>all_moves\<close>), the same moves made
  and the same known mines it returns the same result.
\<close>

theorem make_random_move_deterministic:
  "height s = height t \<Longrightarrow> width s = width t
   \<Longrightarrow> all_moves s = calculate_all_moves (height s) (width s)
   \<Longrightarrow> all_moves t = calculate_all_moves (height t) (width t)
   \<Longrightarrow> moves_made s = moves_made t \<Longrightarrow> mines s = mines t
   \<Longrightarrow> make_random_move iter s = make_random_move iter t"
  by (simp add: make_random_move_def)

theorem make_random_move_deterministic_witness:
  "make_random_move sorted_list_of_fset (MinesweeperAI_init 2 2)
   = make_random_move sorted_list_of_fset ((MinesweeperAI_init 2 2)\<lparr>safes := {|(0, 0)|}\<rparr>)
   \<and> make_random_move sorted_list_of_fset (MinesweeperAI_init 2 2) = Some (0, 0)"
proof -
  have "make_random_move sorted_list_of_fset (MinesweeperAI_init 2 2)
        = make_random_move sorted_list_of_fset ((MinesweeperAI_init 2 2)\<lparr>safes := {|(0, 0)|}\<rparr>)"
    by (rule make_random_move_deterministic) (simp_all add: MinesweeperAI_init_def)
  moreover have "make_random_move sorted_list_of_fset (MinesweeperAI_init 2 2) = Some (0, 0)"
    by code_simp
  ultimately show ?thesis by simp
qed

section \<open>The sentences only lose cells\<close>

lemma known_safes_sub: "Sentence_known_safes st |\<subseteq>| cells st"
  by (simp add: Sentence_known_safes_def)

lemma known_mines_sub: "Sentence_known_mines st |\<subseteq>| cells st"
  by (simp add: Sentence_known_mines_def)

lemma collect_known_safes_iff:
  "c |\<in>| fst (collect_known s)
   \<longleftrightarrow> (\<exists>r\<in>set (knowledge s). c |\<in>| Sentence_known_safes (heap s r))"
  by (auto simp: collect_known_eq ffUnion.rep_eq fimage.rep_eq fset_of_list.rep_eq)

lemma collect_known_mines_iff:
  "c |\<in>| snd (collect_known s)
   \<longleftrightarrow> (\<exists>r\<in>set (knowledge s). c |\<in>| Sentence_known_mines (heap s r))"
  by (auto simp: collect_known_eq ffUnion.rep_eq fimage.rep_eq fset_of_list.rep_eq)

lemma clean_fields:
  "heap (clean_up_empty_knowledge s) = heap s"
  "mines (clean_up_empty_knowledge s) = mines s"
  "safes (clean_up_empty_knowledge s) = safes s"
  "knowledge (clean_up_empty_knowledge s) = filter (\<lambda>r. cells (heap s r) \<noteq> {||}) (knowledge s)"
  by (simp_all add: clean_up_empty_knowledge_filter)

lemma pass_fields:
  "knowledge (fst (discharge_pass s)) = knowledge (clean_up_empty_knowledge s)"
  "mines (fst (discharge_pass s)) = mines s |\<union>| snd (collect_known (clean_up_empty_knowledge s))"
  "safes (fst (discharge_pass s)) = safes s |\<union>| fst (collect_known (clean_up_empty_knowledge s))"
  "heap (fst (discharge_pass s)) =
     map_heap (knowledge (clean_up_empty_knowledge s))
       (\<lambda>st. remove_safes (fst (collect_known (clean_up_empty_knowledge s)))
               (remove_mines (snd (collect_known (clean_up_empty_knowledge s))) st)) (heap s)"
  by (simp_all add: discharge_pass_fst mark_mines_eq mark_safes_eq clean_fields map_heap_comp)

lemma cells_remove: "cells (remove_safes ks (remove_mines km st)) = cells st |-| km |-| ks"
  by (simp add: remove_safes_def remove_mines_def)

subsection \<open>shrinks\<close>

lemma shrinks_refl: "shrinks s s"
  by (simp add: shrinks_def)

lemma shrinks_trans: "shrinks s t \<Longrightarrow> shrinks t u \<Longrightarrow> shrinks s u"
  unfolding shrinks_def by (meson order_trans)

lemma shrinks_clean: "shrinks s (clean_up_empty_knowledge s)"
  by (simp add: shrinks_def clean_fields)

lemma shrinks_pass: "shrinks s (fst (discharge_pass s))"
  by (auto simp: shrinks_def pass_fields clean_fields map_heap_apply cells_remove)

lemma shrinks_res: "shrinks s (subset_resolution s ek nk)"
  by (auto simp: shrinks_def subset_resolution_def Let_def)

lemma discharge_loop_shrinks: "discharge_loop n s = Some s' \<Longrightarrow> shrinks s s'"
  by (rule discharge_loop_rel[of shrinks, OF shrinks_refl shrinks_trans shrinks_pass])

lemma reason_shrinks: "reason_about_new_knowledge n s nk = Some s' \<Longrightarrow> shrinks s s'"
  by (rule reason_resolve_rel(1)[of shrinks, OF shrinks_refl shrinks_trans shrinks_clean
        shrinks_pass shrinks_res])

section \<open>The measure decreases\<close>

lemma shrinks_fcard: "shrinks s t \<Longrightarrow> fcard (cells (heap t r)) \<le> fcard (cells (heap s r))"
  by (simp add: shrinks_def fcard_mono)

lemma slots_less:
  assumes sh: "shrinks s t"
    and sub: "insert ek (set (knowledge t)) \<subseteq> insert nk (set (knowledge s))"
    and a: "a \<in> insert nk (set (knowledge s))"
    and lt: "fcard (cells (heap t a)) < fcard (cells (heap s a))"
  shows "slots t ek < slots s nk"
proof -
  let ?A = "insert nk (set (knowledge s))"
  have "slots t ek \<le> (\<Sum>r\<in>?A. fcard (cells (heap t r)))"
    unfolding slots_def by (rule sum_mono2) (use sub in auto)
  also have "\<dots> < (\<Sum>r\<in>?A. fcard (cells (heap s r)))"
  proof (rule sum_strict_mono_ex1)
    show "finite ?A" by simp
    show "\<forall>x\<in>?A. fcard (cells (heap t x)) \<le> fcard (cells (heap s x))"
      using sh by (simp add: shrinks_fcard)
    show "\<exists>a\<in>?A. fcard (cells (heap t a)) < fcard (cells (heap s a))"
      using a lt by blast
  qed
  finally show ?thesis by (simp add: slots_def)
qed

lemma pass_decreases:
  assumes "snd (discharge_pass s)"
  shows "slots (fst (discharge_pass s)) nk < slots s nk"
proof -
  let ?s1 = "clean_up_empty_knowledge s"
  let ?ks = "fst (collect_known ?s1)"
  let ?km = "snd (collect_known ?s1)"
  let ?t = "fst (discharge_pass s)"
  from assms have "?ks \<noteq> {||} \<or> ?km \<noteq> {||}"
    by (auto simp: discharge_pass_snd)
  then obtain c where "c |\<in>| ?ks \<or> c |\<in>| ?km"
    by auto
  then obtain r where r: "r \<in> set (knowledge ?s1)" and c: "c |\<in>| cells (heap s r)"
    and k: "c |\<in>| ?ks \<or> c |\<in>| ?km"
    using known_safes_sub known_mines_sub
    by (auto simp: collect_known_safes_iff collect_known_mines_iff clean_fields)
  from r have rk: "r \<in> set (knowledge s)"
    by (simp add: clean_fields)
  have "cells (heap ?t r) = cells (heap s r) |-| ?km |-| ?ks"
    using r by (simp add: pass_fields map_heap_apply cells_remove)
  with c k have "cells (heap ?t r) |\<subset>| cells (heap s r)"
    by auto
  then have lt: "fcard (cells (heap ?t r)) < fcard (cells (heap s r))"
    by (rule pfsubset_fcard_mono)
  show ?thesis
  proof (rule slots_less[OF shrinks_pass _ _ lt])
    show "insert nk (set (knowledge ?t)) \<subseteq> insert nk (set (knowledge s))"
      by (auto simp: pass_fields clean_fields)
    show "r \<in> insert nk (set (knowledge s))"
      using rk by simp
  qed
qed

lemma discharge_loop_terminates: "\<exists>n s'. discharge_loop n s = Some s'"
proof (induction "slots s 0" arbitrary: s rule: less_induct)
  case less
  obtain t b where dp: "discharge_pass s = (t, b)" by (cases "discharge_pass s")
  show ?case
  proof (cases b)
    case True
    with dp pass_decreases[of s 0] have "slots t 0 < slots s 0" by simp
    from less[OF this] obtain n s' where "discharge_loop n t = Some s'" by blast
    with dp True have "discharge_loop (Suc n) s = Some s'" by simp
    then show ?thesis by blast
  next
    case False
    with dp have "discharge_loop (Suc 0) s = Some t" by simp
    then show ?thesis by blast
  qed
qed

lemma resolution_decreases:
  assumes ne0: "cells (heap s0 nk) \<noteq> {||}"
    and sh: "shrinks s0 s"
    and i: "i < length (knowledge s)"
    and ps: "proper_superset (heap s (knowledge s ! i)) (heap s nk)"
  shows "slots (subset_resolution s (knowledge s ! i) nk) (knowledge s ! i) < slots s0 nk"
proof -
  let ?ek = "knowledge s ! i"
  let ?t = "subset_resolution s ?ek nk"
  have sht: "shrinks s0 ?t"
    using sh shrinks_res by (rule shrinks_trans)
  from i have ek: "?ek \<in> set (knowledge s)" by simp
  from sh have ks: "set (knowledge s) \<subseteq> set (knowledge s0)"
    by (simp add: shrinks_def)
  have kt: "knowledge ?t = knowledge s"
    by (simp add: subset_resolution_def Let_def)
  have sub: "insert ?ek (set (knowledge ?t)) \<subseteq> insert nk (set (knowledge s0))"
    using ek ks kt by auto
  show ?thesis
  proof (cases "cells (heap s nk) = {||}")
    case True
    have "cells (heap ?t nk) |\<subseteq>| cells (heap s nk)"
      using shrinks_res[of s ?ek nk] by (simp add: shrinks_def)
    with True have "cells (heap ?t nk) = {||}" by simp
    with ne0 have "fcard (cells (heap ?t nk)) < fcard (cells (heap s0 nk))"
      by (simp add: fcard_fempty) (metis fcard_0_eq neq0_conv)
    from slots_less[OF sht sub _ this] show ?thesis by simp
  next
    case False
    then obtain c where c: "c |\<in>| cells (heap s nk)" by auto
    with ps have ce: "c |\<in>| cells (heap s ?ek)"
      by (auto simp: proper_superset_def)
    have "cells (heap ?t ?ek) = cells (heap s ?ek) |-| cells (heap s nk)"
      by (simp add: subset_resolution_def Let_def)
    with c ce have "cells (heap ?t ?ek) |\<subset>| cells (heap s ?ek)"
      by auto
    then have "fcard (cells (heap ?t ?ek)) < fcard (cells (heap s ?ek))"
      by (rule pfsubset_fcard_mono)
    also have "\<dots> \<le> fcard (cells (heap s0 ?ek))"
      by (rule shrinks_fcard[OF sh])
    finally have lt: "fcard (cells (heap ?t ?ek)) < fcard (cells (heap s0 ?ek))" .
    have "?ek \<in> insert nk (set (knowledge s0))"
      using ek ks by auto
    from slots_less[OF sht sub this lt] show ?thesis .
  qed
qed

section \<open>Every call returns\<close>

lemma resolve_loop_terminates_aux:
  assumes IH: "\<And>t ek. slots t ek < slots s0 nk
                 \<Longrightarrow> \<exists>n u. reason_about_new_knowledge n t ek = Some u"
    and ne0: "cells (heap s0 nk) \<noteq> {||}"
  shows "shrinks s0 s \<Longrightarrow> \<exists>n s'. resolve_loop n s nk i = Some s'"
proof (induction "length (knowledge s) - i" arbitrary: s i rule: less_induct)
  case less
  show ?case
  proof (cases "i \<ge> length (knowledge s)")
    case True
    then have "resolve_loop (Suc 0) s nk i = Some s" by simp
    then show ?thesis by blast
  next
    case inr: False
    define ek where "ek = knowledge s ! i"
    show ?thesis
    proof (cases "fcard (cells (heap s ek)) = 0")
      case True
      let ?c = "clean_up_empty_knowledge s"
      have sc: "shrinks s ?c" by (rule shrinks_clean)
      then have "length (knowledge ?c) \<le> length (knowledge s)"
        by (simp add: shrinks_def)
      with inr have m: "length (knowledge ?c) - Suc i < length (knowledge s) - i"
        by simp
      from less.hyps[OF m shrinks_trans[OF less.prems sc]]
      obtain n s' where "resolve_loop n ?c nk (Suc i) = Some s'" by blast
      with inr True have "resolve_loop (Suc n) s nk i = Some s'"
        by (simp add: ek_def Let_def)
      then show ?thesis by blast
    next
      case ne: False
      show ?thesis
      proof (cases "proper_superset (heap s ek) (heap s nk)")
        case True
        define t where "t = subset_resolution s ek nk"
        from inr have i: "i < length (knowledge s)" by simp
        have "slots t ek < slots s0 nk"
          unfolding t_def ek_def
          by (rule resolution_decreases[OF ne0 less.prems i]) (use True in \<open>simp add: ek_def\<close>)
        from IH[OF this] obtain n1 u where r: "reason_about_new_knowledge n1 t ek = Some u"
          by blast
        have st: "shrinks s t" unfolding t_def by (rule shrinks_res)
        have tu: "shrinks t u" by (rule reason_shrinks[OF r])
        have su: "shrinks s u" by (rule shrinks_trans[OF st tu])
        then have "length (knowledge u) \<le> length (knowledge s)"
          by (simp add: shrinks_def)
        with inr have m: "length (knowledge u) - Suc i < length (knowledge s) - i"
          by simp
        from less.hyps[OF m shrinks_trans[OF less.prems su]]
        obtain n2 s' where l: "resolve_loop n2 u nk (Suc i) = Some s'" by blast
        have r': "reason_about_new_knowledge (max n1 n2) t ek = Some u"
          by (rule reason_resolve_fuel_mono(1)[OF r]) simp
        have l': "resolve_loop (max n1 n2) u nk (Suc i) = Some s'"
          by (rule reason_resolve_fuel_mono(2)[OF l]) simp
        from r' l' inr ne True have "resolve_loop (Suc (max n1 n2)) s nk i = Some s'"
          by (simp add: ek_def Let_def t_def)
        then show ?thesis by blast
      next
        case False
        from inr have m: "length (knowledge s) - Suc i < length (knowledge s) - i"
          by simp
        from less.hyps[OF m less.prems]
        obtain n s' where "resolve_loop n s nk (Suc i) = Some s'" by blast
        with inr ne False have "resolve_loop (Suc n) s nk i = Some s'"
          by (simp add: ek_def Let_def)
        then show ?thesis by blast
      qed
    qed
  qed
qed

lemma reason_terminates: "\<exists>n s'. reason_about_new_knowledge n s nk = Some s'"
proof (induction "slots s nk" arbitrary: s nk rule: less_induct)
  case less
  show ?case
  proof (cases "fcard (cells (heap s nk)) = 0")
    case True
    then have "reason_about_new_knowledge (Suc 0) s nk = Some s" by simp
    then show ?thesis by blast
  next
    case False
    then have ne0: "cells (heap s nk) \<noteq> {||}" by auto
    from discharge_loop_terminates obtain n1 s1 where d: "discharge_loop n1 s = Some s1"
      by blast
    have sh: "shrinks s s1" by (rule discharge_loop_shrinks[OF d])
    have "\<exists>n s'. resolve_loop n s1 nk 0 = Some s'"
      by (rule resolve_loop_terminates_aux[OF less.hyps ne0 sh])
    then obtain n2 s' where l: "resolve_loop n2 s1 nk 0 = Some s'" by blast
    have d': "discharge_loop (max n1 n2) s = Some s1"
      by (rule discharge_loop_fuel_mono[OF d]) simp
    have l': "resolve_loop (max n1 n2) s1 nk 0 = Some s'"
      by (rule reason_resolve_fuel_mono(2)[OF l]) simp
    from d' l' False have "reason_about_new_knowledge (Suc (max n1 n2)) s nk = Some s'"
      by simp
    then show ?thesis by blast
  qed
qed

lemma add_knowledge_terminates: "\<exists>fuel s'. add_knowledge fuel s c n = Some s'"
  unfolding add_knowledge_eq by (rule reason_terminates)

lemma observe_all_terminates: "\<exists>fuel s'. observe_all fuel s obs = Some s'"
proof (induction obs arbitrary: s)
  case Nil
  show ?case by simp
next
  case (Cons ob obs)
  from add_knowledge_terminates obtain n1 t where
    a: "add_knowledge n1 s (fst ob) (snd ob) = Some t" by blast
  from Cons.IH obtain n2 s' where r: "observe_all n2 t obs = Some s'" by blast
  have a': "add_knowledge (max n1 n2) s (fst ob) (snd ob) = Some t"
    by (rule add_knowledge_fuel_mono[OF a]) simp
  have r': "observe_all (max n1 n2) t obs = Some s'"
    by (rule observe_all_fuel_mono[OF r]) simp
  from a' r' have "observe_all (max n1 n2) s (ob # obs) = Some s'" by simp
  then show ?case by blast
qed

section \<open>Termination and the calls that nothing rejects\<close>

lemma observe_all_fuel_unique:
  assumes "observe_all n s obs = Some a" and "observe_all m s obs = Some b"
  shows "a = b"
proof -
  have "observe_all (max n m) s obs = Some a"
    by (rule observe_all_fuel_mono[OF assms(1)]) simp
  moreover have "observe_all (max n m) s obs = Some b"
    by (rule observe_all_fuel_mono[OF assms(2)]) simp
  ultimately show ?thesis by simp
qed

text \<open>
  C7. For every state of the knowledge base and every observation, the propagation inside
  \<^verbatim>\<open>add_knowledge\<close>, with its recursive calls, comes to an end: some amount of fuel is enough
  for the call to return a state.
\<close>

theorem add_knowledge_returns: "\<exists>fuel s'. add_knowledge fuel s c n = Some s'"
  by (rule add_knowledge_terminates)

theorem add_knowledge_returns_witness:
  "(\<exists>fuel s'. add_knowledge fuel (MinesweeperAI_init 2 2) (0, 0) 3 = Some s')
   \<and> add_knowledge 2 (MinesweeperAI_init 2 2) (0, 0) 3 = None
   \<and> add_knowledge 3 (MinesweeperAI_init 2 2) (0, 0) 3 \<noteq> None"
proof -
  have "add_knowledge 2 (MinesweeperAI_init 2 2) (0, 0) 3 = None"
    by code_simp
  moreover have "add_knowledge 3 (MinesweeperAI_init 2 2) (0, 0) 3 \<noteq> None"
    by code_simp
  ultimately show ?thesis
    using add_knowledge_returns[of "MinesweeperAI_init 2 2" "(0, 0)" 3] by simp
qed


text \<open>
  Against C4 as stated: the counts of these two observations are inconsistent. The run
  derives the count \<open>- 2\<close> for a sentence left without cells, puts \<open>(0, 1)\<close> in both \<open>safes\<close>
  and \<open>mines\<close>, and returns a state all the same.
\<close>

theorem inconsistent_observations_return:
  "observe_all 10 (MinesweeperAI_init 2 2) [((0, 0), 3), ((0, 1), 0)] \<noteq> None
   \<and> (0, 1) |\<in>| safes (the (observe_all 10 (MinesweeperAI_init 2 2) [((0, 0), 3), ((0, 1), 0)]))
   \<and> (0, 1) |\<in>| mines (the (observe_all 10 (MinesweeperAI_init 2 2) [((0, 0), 3), ((0, 1), 0)]))
   \<and> sentences (the (observe_all 10 (MinesweeperAI_init 2 2) [((0, 0), 3), ((0, 1), 0)]))
      = [({||}, - 2)]"
  by code_simp

text \<open>
  C4, as the code has it. \<^verbatim>\<open>add_knowledge\<close> has no contradiction error and no other: for every
  sequence of observations, consistent or not, every call returns a state.
\<close>

theorem every_observation_sequence_returns: "\<exists>fuel s'. observe_all fuel s obs = Some s'"
  by (rule observe_all_terminates)

theorem every_observation_sequence_returns_witness:
  "(\<exists>fuel s'. observe_all fuel (MinesweeperAI_init 2 2) [((0, 0), 3), ((0, 1), 0)] = Some s')
   \<and> observe_all 3 (MinesweeperAI_init 2 2) [((0, 0), 3), ((0, 1), 0)] \<noteq> None"
proof -
  have "observe_all 3 (MinesweeperAI_init 2 2) [((0, 0), 3), ((0, 1), 0)] \<noteq> None"
    by code_simp
  then show ?thesis
    using every_observation_sequence_returns
            [of "MinesweeperAI_init 2 2" "[((0, 0), 3), ((0, 1), 0)]"]
    by simp
qed




section \<open>Three runs on small boards\<close>

text \<open>
  Against C5 as stated: after the two observations on the 2 by 2 board, \<open>(1, 1)\<close> is not in
  \<open>mines\<close> and \<open>(1, 0)\<close> is not in \<open>safes\<close>.
\<close>

theorem scenario_B_no_deduction:
  "observe_all 10 (MinesweeperAI_init 2 2) [((0, 0), 1), ((0, 1), 1)] \<noteq> None
   \<and> (1, 1) |\<notin>| mines (the (observe_all 10 (MinesweeperAI_init 2 2) [((0, 0), 1), ((0, 1), 1)]))
   \<and> (1, 0) |\<notin>| safes (the (observe_all 10 (MinesweeperAI_init 2 2) [((0, 0), 1), ((0, 1), 1)]))"
  by code_simp

text \<open>
  C5, as the code has it. On a fresh 2 by 2 board, after \<^verbatim>\<open>add_knowledge((0, 0), 1)\<close> and then
  \<^verbatim>\<open>add_knowledge((0, 1), 1)\<close>, no mine is known, the known safe cells are the two observed
  cells, and the knowledge is twice the sentence \<open>{(1, 0), (1, 1)} = 1\<close>: the two
  observations do not tell which of \<open>(1, 0)\<close> and \<open>(1, 1)\<close> is the mine.
\<close>

theorem scenario_B_result:
  "(\<exists>s. observe_all 10 (MinesweeperAI_init 2 2) [((0, 0), 1), ((0, 1), 1)] = Some s)
   \<and> (\<forall>fuel s. observe_all fuel (MinesweeperAI_init 2 2) [((0, 0), 1), ((0, 1), 1)] = Some s
         \<longrightarrow> mines s = {||} \<and> safes s = {|(0, 0), (0, 1)|}
             \<and> sentences s = [({|(1, 0), (1, 1)|}, 1), ({|(1, 0), (1, 1)|}, 1)])"
proof -
  let ?r = "observe_all 10 (MinesweeperAI_init 2 2) [((0, 0), 1), ((0, 1), 1)]"
  have e: "?r \<noteq> None"
    by code_simp
  have v: "mines (the ?r) = {||} \<and> safes (the ?r) = {|(0, 0), (0, 1)|}
           \<and> sentences (the ?r) = [({|(1, 0), (1, 1)|}, 1), ({|(1, 0), (1, 1)|}, 1)]"
    by code_simp
  from e obtain t where t: "?r = Some t" by blast
  have v': "mines t = {||} \<and> safes t = {|(0, 0), (0, 1)|}
            \<and> sentences t = [({|(1, 0), (1, 1)|}, 1), ({|(1, 0), (1, 1)|}, 1)]"
    using v unfolding t option.sel .
  have u: "s = t"
    if "observe_all fuel (MinesweeperAI_init 2 2) [((0, 0), 1), ((0, 1), 1)] = Some s"
    for fuel s
    by (rule observe_all_fuel_unique[OF that t])
  show ?thesis
  proof (intro conjI allI impI)
    show "\<exists>s. ?r = Some s" using t by (rule exI)
  next
    fix fuel s
    assume "observe_all fuel (MinesweeperAI_init 2 2) [((0, 0), 1), ((0, 1), 1)] = Some s"
    then have "s = t" by (rule u)
    with v' show "mines s = {||}" "safes s = {|(0, 0), (0, 1)|}"
      "sentences s = [({|(1, 0), (1, 1)|}, 1), ({|(1, 0), (1, 1)|}, 1)]"
      by blast+
  qed
qed

theorem scenario_B_result_witness:
  "observe_all 12 (MinesweeperAI_init 2 2) [((0, 0), 1), ((0, 1), 1)] \<noteq> None
   \<and> mines (the (observe_all 12 (MinesweeperAI_init 2 2) [((0, 0), 1), ((0, 1), 1)])) = {||}
   \<and> safes (the (observe_all 12 (MinesweeperAI_init 2 2) [((0, 0), 1), ((0, 1), 1)]))
       = {|(0, 0), (0, 1)|}"
proof -
  let ?r = "observe_all 12 (MinesweeperAI_init 2 2) [((0, 0), 1), ((0, 1), 1)]"
  have e: "?r \<noteq> None"
    by code_simp
  then obtain s where s: "?r = Some s"
    by blast
  from scenario_B_result s have "mines s = {||} \<and> safes s = {|(0, 0), (0, 1)|}"
    by blast
  then have "mines (the ?r) = {||} \<and> safes (the ?r) = {|(0, 0), (0, 1)|}"
    unfolding s option.sel .
  with e show ?thesis by blast
qed

text \<open>
  C3 fails on the code. On a board of one row and three columns with its mine at
  \<open>(0, 2)\<close>, the game answers 1 for \<open>(0, 1)\<close> and 0 for \<open>(0, 0)\<close>. The second call removes
  \<open>(0, 0)\<close> from the first sentence, which becomes \<open>{(0, 2)} = 1\<close>; the new sentence has no
  cells, so \<^verbatim>\<open>reason_about_new_knowledge\<close> returns at once, and \<^verbatim>\<open>add_knowledge\<close> returns with
  that sentence, whose count is the number of its cells, still in the knowledge, and with
  \<open>(0, 2)\<close> not in \<open>mines\<close>.
\<close>

theorem early_return_leaves_dischargeable_sentence:
  "list_all (consistent_obs \<lparr>game_height = 1, game_width = 3, board = [[False, False, True]]\<rparr>)
     [((0, 1), 1), ((0, 0), 0)]
   \<and> observe_all 10 (MinesweeperAI_init 1 3) [((0, 1), 1), ((0, 0), 0)] \<noteq> None
   \<and> sentences (the (observe_all 10 (MinesweeperAI_init 1 3) [((0, 1), 1), ((0, 0), 0)]))
       = [({|(0, 2)|}, 1), ({||}, 0)]
   \<and> mines (the (observe_all 10 (MinesweeperAI_init 1 3) [((0, 1), 1), ((0, 0), 0)])) = {||}"
  by code_simp

text \<open>
  C8 fails on the code. \<^verbatim>\<open>make_random_move\<close> draws nothing at random: on the fresh 2 by 2
  board, where four cells can be chosen, it returns the first cell in the order in which the
  interpreter iterates over the set of the four, whatever that order is.
\<close>

theorem make_random_move_takes_first:
  "make_random_move iter (MinesweeperAI_init 2 2)
   = (case iter {|(0, 0), (0, 1), (1, 0), (1, 1)|} of [] \<Rightarrow> None | c # cs \<Rightarrow> Some c)"
proof -
  have "all_moves (MinesweeperAI_init 2 2) |-| moves_made (MinesweeperAI_init 2 2)
        = {|(0, 0), (0, 1), (1, 0), (1, 1)|}"
    by code_simp
  then show ?thesis
    by (simp add: make_random_move_def MinesweeperAI_init_def split: list.splits)
qed

theorem make_random_move_takes_first_witness:
  "make_random_move sorted_list_of_fset (MinesweeperAI_init 2 2) = Some (0, 0)
   \<and> make_random_move (\<lambda>cs. rev (sorted_list_of_fset cs)) (MinesweeperAI_init 2 2) = Some (1, 1)"
proof -
  have "sorted_list_of_fset {|(0, 0), (0, 1), (1, 0), (1, 1) :: cell|}
        = [(0, 0), (0, 1), (1, 0), (1, 1)]"
    by code_simp
  then show ?thesis
    using make_random_move_takes_first[of sorted_list_of_fset]
      make_random_move_takes_first[of "\<lambda>cs. rev (sorted_list_of_fset cs)"]
    by simp
qed

section \<open>True sentences stay true\<close>

lemma sound_known_mines:
  assumes "sound_sentence M st"
  shows "fset (Sentence_known_mines st) \<subseteq> M"
proof (cases "count st = int (fcard (cells st))")
  case True
  with assms have "card (fset (cells st) \<inter> M) = card (fset (cells st))"
    by (simp add: sound_sentence_def fcard.rep_eq)
  then have "fset (cells st) \<inter> M = fset (cells st)"
    by (intro card_subset_eq) auto
  with True show ?thesis
    by (auto simp: Sentence_known_mines_def)
next
  case False
  then show ?thesis by (simp add: Sentence_known_mines_def)
qed

lemma sound_known_safes:
  assumes "sound_sentence M st"
  shows "fset (Sentence_known_safes st) \<inter> M = {}"
  using assms by (auto simp: Sentence_known_safes_def sound_sentence_def)

lemma sound_remove:
  assumes st: "sound_sentence M st" and km: "fset km \<subseteq> M" and ks: "fset ks \<inter> M = {}"
  shows "sound_sentence M (remove_safes ks (remove_mines km st))"
proof -
  let ?C = "fset (cells st)"
  have e: "(?C - fset km - fset ks) \<inter> M = (?C \<inter> M) - (?C \<inter> fset km)"
    using km ks by auto
  have sub: "?C \<inter> fset km \<subseteq> ?C \<inter> M"
    using km by auto
  have "card ((?C - fset km - fset ks) \<inter> M) = card (?C \<inter> M) - card (?C \<inter> fset km)"
    unfolding e by (rule card_Diff_subset) (use sub in auto)
  moreover have "card (?C \<inter> fset km) \<le> card (?C \<inter> M)"
    by (rule card_mono) (use sub in auto)
  ultimately have "int (card ((?C - fset km - fset ks) \<inter> M))
                   = int (card (?C \<inter> M)) - int (card (?C \<inter> fset km))"
    by simp
  with st show ?thesis
    by (simp add: sound_sentence_def remove_safes_def remove_mines_def fcard.rep_eq)
qed

lemma sound_remove_mines:
  assumes "sound_sentence M st" and "fset km \<subseteq> M"
  shows "sound_sentence M (remove_mines km st)"
proof -
  have "sound_sentence M (remove_safes {||} (remove_mines km st))"
    by (rule sound_remove[OF assms]) simp
  then show ?thesis by (simp add: remove_safes_def)
qed

lemma sound_mark_safe:
  assumes "sound_sentence M st" and "c \<notin> M"
  shows "sound_sentence M (Sentence_mark_safe st c)"
proof -
  have "(fset (cells st) - {c}) \<inter> M = fset (cells st) \<inter> M"
    using assms(2) by auto
  with assms(1) show ?thesis
    by (simp add: sound_sentence_def Sentence_mark_safe_def)
qed

lemma sound_subtract:
  assumes e: "sound_sentence M e" and n: "sound_sentence M nk"
    and sub: "cells nk |\<subseteq>| cells e"
  shows "sound_sentence M (e\<lparr>cells := cells e |-| cells nk, count := count e - count nk\<rparr>)"
proof -
  let ?E = "fset (cells e)" and ?N = "fset (cells nk)"
  from sub have s: "?N \<inter> M \<subseteq> ?E \<inter> M"
    by (auto simp: less_eq_fset.rep_eq)
  have "(?E - ?N) \<inter> M = (?E \<inter> M) - (?N \<inter> M)"
    by auto
  then have "card ((?E - ?N) \<inter> M) = card (?E \<inter> M) - card (?N \<inter> M)"
    using s by (simp add: card_Diff_subset)
  moreover have "card (?N \<inter> M) \<le> card (?E \<inter> M)"
    by (rule card_mono) (use s in auto)
  ultimately have "int (card ((?E - ?N) \<inter> M)) = int (card (?E \<inter> M)) - int (card (?N \<inter> M))"
    by simp
  with e n show ?thesis
    by (simp add: sound_sentence_def)
qed

subsection \<open>Every step keeps the knowledge true\<close>

lemma sound_clean: "sound g s \<Longrightarrow> sound g (clean_up_empty_knowledge s)"
  by (simp add: sound_def clean_up_empty_knowledge_filter)

lemma sound_collect:
  assumes "sound g s"
  shows "fset (snd (collect_known s)) \<subseteq> mine_cells g"
    and "fset (fst (collect_known s)) \<inter> mine_cells g = {}"
proof -
  from assms have a: "\<And>r. sound_sentence (mine_cells g) (heap s r)"
    by (simp add: sound_def)
  show "fset (snd (collect_known s)) \<subseteq> mine_cells g"
  proof
    fix c assume "c \<in> fset (snd (collect_known s))"
    then obtain r where "c |\<in>| Sentence_known_mines (heap s r)"
      by (auto simp: collect_known_mines_iff)
    with sound_known_mines[OF a, of r] show "c \<in> mine_cells g" by blast
  qed
  show "fset (fst (collect_known s)) \<inter> mine_cells g = {}"
  proof (rule ccontr)
    assume "fset (fst (collect_known s)) \<inter> mine_cells g \<noteq> {}"
    then obtain c where c: "c |\<in>| fst (collect_known s)" "c \<in> mine_cells g"
      by blast
    from c(1) obtain r where "c |\<in>| Sentence_known_safes (heap s r)"
      by (auto simp: collect_known_safes_iff)
    with sound_known_safes[OF a, of r] c(2) show False by blast
  qed
qed

lemma sound_pass:
  assumes "sound g s"
  shows "sound g (fst (discharge_pass s))"
proof -
  let ?s1 = "clean_up_empty_knowledge s"
  let ?M = "mine_cells g"
  have s1: "sound g ?s1" by (rule sound_clean[OF assms])
  note km = sound_collect(1)[OF s1] and ks = sound_collect(2)[OF s1]
  from assms have a: "\<And>r. sound_sentence ?M (heap s r)"
    by (simp add: sound_def)
  have "sound_sentence ?M (heap (fst (discharge_pass s)) r)" for r
    using sound_remove[OF a km ks] a by (simp add: pass_fields map_heap_apply)
  moreover have "fset (mines (fst (discharge_pass s))) \<subseteq> ?M"
    using assms km by (auto simp: pass_fields sound_def)
  moreover have "fset (safes (fst (discharge_pass s))) \<inter> ?M = {}"
    using assms ks by (auto simp: pass_fields sound_def)
  moreover have "height (fst (discharge_pass s)) = game_height g"
    "width (fst (discharge_pass s)) = game_width g"
    using assms extends_pass[of s] by (simp_all add: sound_def extends_def)
  ultimately show ?thesis by (simp add: sound_def)
qed

lemma sound_res:
  assumes "sound g s" and "proper_superset (heap s ek) (heap s nk)"
  shows "sound g (subset_resolution s ek nk)"
proof -
  from assms(1) have a: "\<And>r. sound_sentence (mine_cells g) (heap s r)"
    by (simp add: sound_def)
  from assms(2) have sub: "cells (heap s nk) |\<subseteq>| cells (heap s ek)"
    by (simp add: proper_superset_def)
  have "sound_sentence (mine_cells g) (heap (subset_resolution s ek nk) r)" for r
    using sound_subtract[OF a a sub] a by (simp add: subset_resolution_def Let_def)
  with assms(1) show ?thesis
    by (simp add: sound_def subset_resolution_def Let_def)
qed

lemma reason_sound:
  assumes "reason_about_new_knowledge n s nk = Some s'" and "sound g s"
  shows "sound g s'"
proof -
  have "sound g s \<longrightarrow> sound g s'"
    by (rule reason_resolve_rel(1)[of "\<lambda>s s'. sound g s \<longrightarrow> sound g s'", OF _ _ _ _ _ assms(1)])
      (simp_all add: sound_clean sound_pass sound_res)
  with assms(2) show ?thesis by simp
qed

section \<open>What the game counts and what the new sentence holds\<close>

lemma sum_list_indicator:
  "distinct js \<Longrightarrow>
     sum_list (map (\<lambda>j. if P j then 1 else 0) js) = int (card {j \<in> set js. P j})"
proof (induction js)
  case Nil
  then show ?case by simp
next
  case (Cons j js)
  have e: "{k \<in> set (j # js). P k} = (if P j then insert j {k \<in> set js. P k} else {k \<in> set js. P k})"
    by auto
  from Cons show ?case
    unfolding e by simp
qed

lemma sum_list_grid:
  assumes "distinct is" and "distinct js"
  shows "sum_list (concat (map (\<lambda>i. map (\<lambda>j. if P i j then 1 else 0) js) is))
         = int (card {(i, j). i \<in> set is \<and> j \<in> set js \<and> P i j})"
  using assms(1)
proof (induction "is")
  case Nil
  then show ?case by simp
next
  case (Cons i "is")
  let ?row = "Pair i ` {j \<in> set js. P i j}"
  let ?rest = "{(i', j). i' \<in> set is \<and> j \<in> set js \<and> P i' j}"
  have e: "{(i', j). i' \<in> set (i # is) \<and> j \<in> set js \<and> P i' j} = ?row \<union> ?rest"
    by auto
  have d: "?row \<inter> ?rest = {}"
    using Cons.prems by auto
  have f: "finite ?row" by simp
  have "?rest \<subseteq> set is \<times> set js" by auto
  then have g: "finite ?rest" by (rule finite_subset) simp
  have "card (?row \<union> ?rest) = card ?row + card ?rest"
    by (rule card_Un_disjoint[OF f g d])
  also have "card ?row = card {j \<in> set js. P i j}"
    by (rule card_image) (simp add: inj_on_def)
  finally have c: "card (?row \<union> ?rest) = card {j \<in> set js. P i j} + card ?rest" .
  from Cons.prems have "distinct is" by simp
  from Cons.IH[OF this] sum_list_indicator[OF assms(2), of "P i"] show ?case
    unfolding e c by simp
qed

lemma nearby_mines_card:
  "nearby_mines g c =
     int (card {(i, j). fst c - 1 \<le> i \<and> i \<le> fst c + 1 \<and> snd c - 1 \<le> j \<and> j \<le> snd c + 1
                  \<and> (i, j) \<noteq> c \<and> (i, j) \<in> mine_cells g})"
proof -
  let ?P = "\<lambda>i j. (i, j) \<noteq> c \<and> (i, j) \<in> mine_cells g"
  have "nearby_mines g c
        = sum_list (concat (map (\<lambda>i. map (\<lambda>j. if ?P i j then 1 else 0)
                                   [snd c - 1..snd c + 1]) [fst c - 1..fst c + 1]))"
    unfolding nearby_mines_def
    by (intro arg_cong[where f = sum_list] arg_cong[where f = concat] map_cong refl)
       (auto simp: mine_cells_def in_board_def is_mine_def)
  also have "\<dots> = int (card {(i, j). i \<in> set [fst c - 1..fst c + 1]
                                 \<and> j \<in> set [snd c - 1..snd c + 1] \<and> ?P i j})"
    by (rule sum_list_grid) simp_all
  also have "{(i, j). i \<in> set [fst c - 1..fst c + 1] \<and> j \<in> set [snd c - 1..snd c + 1] \<and> ?P i j}
     = {(i, j). fst c - 1 \<le> i \<and> i \<le> fst c + 1 \<and> snd c - 1 \<le> j \<and> j \<le> snd c + 1
                  \<and> (i, j) \<noteq> c \<and> (i, j) \<in> mine_cells g}"
    by auto
  finally show ?thesis .
qed

lemma get_unknown_neighbours_set:
  "fset (get_unknown_neighbours s c) =
     {(i, j). fst c - 1 \<le> i \<and> i \<le> fst c + 1 \<and> snd c - 1 \<le> j \<and> j \<le> snd c + 1
        \<and> 0 \<le> i \<and> i < height s \<and> 0 \<le> j \<and> j < width s \<and> (i, j) |\<notin>| safes s}"
  by (cases c) (auto simp: get_unknown_neighbours_def fset_of_list.rep_eq split: if_splits)

section \<open>Observations the game gives keep the knowledge true\<close>

lemma sound_init: "sound g (MinesweeperAI_init (game_height g) (game_width g))"
  by (simp add: sound_def MinesweeperAI_init_def sound_sentence_def)

lemma sound_new_sentence:
  assumes s: "sound g s" and c: "c |\<in>| safes s" and n: "n = nearby_mines g c"
  shows "sound_sentence (mine_cells g) (Sentence_init (get_unknown_neighbours s c) n)"
proof -
  from s have hw: "height s = game_height g" "width s = game_width g"
    and sf: "fset (safes s) \<inter> mine_cells g = {}"
    by (simp_all add: sound_def)
  have "fset (get_unknown_neighbours s c) \<inter> mine_cells g
        = {(i, j). fst c - 1 \<le> i \<and> i \<le> fst c + 1 \<and> snd c - 1 \<le> j \<and> j \<le> snd c + 1
                  \<and> (i, j) \<noteq> c \<and> (i, j) \<in> mine_cells g}"
    unfolding get_unknown_neighbours_set
    using sf c hw by (auto simp: mine_cells_def in_board_def)
  with n show ?thesis
    by (simp add: sound_sentence_def Sentence_init_def nearby_mines_card)
qed

lemma sound_add_knowledge_start:
  assumes s: "sound g s" and ob: "consistent_obs g (c, n)"
  shows "sound g (add_knowledge_start s c n)"
proof -
  let ?M = "mine_cells g"
  from ob have cM: "c \<notin> ?M" and n: "n = nearby_mines g c"
    by (simp_all add: consistent_obs_def mine_cells_def)
  define s2 where "s2 = MinesweeperAI_mark_safe c (s\<lparr>moves_made := finsert c (moves_made s)\<rparr>)"
  define nk where "nk = new_ref (knowledge s2)"
  define s3 where "s3 = s2\<lparr>heap := (heap s2)(nk := Sentence_init (get_unknown_neighbours s2 c) n),
                            knowledge := knowledge s2 @ [nk]\<rparr>"
  define km where "km = cells (heap s3 nk) |\<inter>| mines s3"
  have start: "add_knowledge_start s c n = mark_mines km s3"
    by (simp add: add_knowledge_start_def Let_def s2_def nk_def s3_def km_def)
  from s have a: "\<And>r. sound_sentence ?M (heap s r)"
    by (simp add: sound_def)
  have "sound_sentence ?M (heap s2 r)" for r
    using sound_mark_safe[OF a cM] a
    by (simp add: s2_def MinesweeperAI_mark_safe_eq map_heap_apply)
  with s cM have s2: "sound g s2"
    by (simp add: sound_def s2_def MinesweeperAI_mark_safe_eq)
  have c2: "c |\<in>| safes s2"
    by (simp add: s2_def MinesweeperAI_mark_safe_eq)
  have new: "sound_sentence ?M (Sentence_init (get_unknown_neighbours s2 c) n)"
    by (rule sound_new_sentence[OF s2 c2 n])
  from s2 have a2: "\<And>r. sound_sentence ?M (heap s2 r)"
    by (simp add: sound_def)
  have "sound_sentence ?M (heap s3 r)" for r
    using new a2 by (simp add: s3_def)
  with s2 have s3: "sound g s3"
    by (simp add: sound_def s3_def)
  then have a3: "\<And>r. sound_sentence ?M (heap s3 r)" and m3: "fset (mines s3) \<subseteq> ?M"
    by (simp_all add: sound_def)
  from m3 have km: "fset km \<subseteq> ?M"
    by (auto simp: km_def)
  have "sound_sentence ?M (heap (mark_mines km s3) r)" for r
    using sound_remove_mines[OF a3 km] a3 by (simp add: mark_mines_eq map_heap_apply)
  with s3 km show ?thesis
    unfolding start by (simp add: sound_def mark_mines_eq)
qed

lemma add_knowledge_sound:
  assumes "sound g s" and "consistent_obs g (c, n)" and "add_knowledge fuel s c n = Some s'"
  shows "sound g s'"
proof -
  from assms(3) have "reason_about_new_knowledge fuel (add_knowledge_start s c n)
                        (new_ref (knowledge s)) = Some s'"
    by (simp add: add_knowledge_eq)
  then show ?thesis
    by (rule reason_sound) (rule sound_add_knowledge_start[OF assms(1,2)])
qed

lemma observe_all_sound:
  "sound g s \<Longrightarrow> list_all (consistent_obs g) obs \<Longrightarrow> observe_all fuel s obs = Some s'
     \<Longrightarrow> sound g s'"
proof (induction obs arbitrary: s)
  case Nil
  then show ?case by simp
next
  case (Cons ob obs)
  from Cons.prems(3) obtain t where a: "add_knowledge fuel s (fst ob) (snd ob) = Some t"
    and r: "observe_all fuel t obs = Some s'"
    by (simp split: option.splits)
  from Cons.prems(2) have ob: "consistent_obs g (fst ob, snd ob)" and obs: "list_all (consistent_obs g) obs"
    by simp_all
  have "sound g t"
    by (rule add_knowledge_sound[OF Cons.prems(1) ob a])
  from Cons.IH[OF this obs r] show ?case .
qed

lemma sound_sentence_bounds:
  "sound_sentence M st \<Longrightarrow> 0 \<le> count st \<and> count st \<le> int (fcard (cells st))"
  by (simp add: sound_sentence_def fcard.rep_eq card_mono)


section \<open>Counts within bounds, known cells kept apart\<close>

text \<open>
  Against C1 as stated: nothing checks the count that \<^verbatim>\<open>add_knowledge\<close> is given. With the
  count 5 for a corner of the 2 by 2 board, the sentence has three cells and the count 5;
  with the counts 3 and then 0, a sentence without cells is left with the count \<open>- 2\<close>.
\<close>

theorem unchecked_counts_break_bounds:
  "observe_all 10 (MinesweeperAI_init 2 2) [((0, 0), 5)] \<noteq> None
   \<and> sentences (the (observe_all 10 (MinesweeperAI_init 2 2) [((0, 0), 5)]))
       = [({|(0, 1), (1, 0), (1, 1)|}, 5)]
   \<and> observe_all 10 (MinesweeperAI_init 2 2) [((0, 0), 3), ((0, 1), 0)] \<noteq> None
   \<and> sentences (the (observe_all 10 (MinesweeperAI_init 2 2) [((0, 0), 3), ((0, 1), 0)]))
       = [({||}, - 2)]"
  by code_simp

text \<open>
  C1, as the code has it. When every observation is one the game gives (a cell of the board
  that is not a mine, with the count \<^verbatim>\<open>nearby_mines\<close> returns for it), then after every
  \<^verbatim>\<open>add_knowledge\<close> call on a knowledge base that started fresh for that board, every sentence
  of the knowledge has a count between 0 and the number of its cells.
\<close>

theorem sentence_counts_within_bounds:
  "list_all (consistent_obs g) obs
   \<Longrightarrow> observe_all fuel (MinesweeperAI_init (game_height g) (game_width g)) obs = Some s
   \<Longrightarrow> list_all (\<lambda>(cs, n). 0 \<le> n \<and> n \<le> int (fcard cs)) (sentences s)"
proof -
  assume "list_all (consistent_obs g) obs"
    and "observe_all fuel (MinesweeperAI_init (game_height g) (game_width g)) obs = Some s"
  with sound_init have "sound g s"
    by (rule observe_all_sound)
  then have "\<And>r. sound_sentence (mine_cells g) (heap s r)"
    by (simp add: sound_def)
  then have "\<And>r. 0 \<le> count (heap s r) \<and> count (heap s r) \<le> int (fcard (cells (heap s r)))"
    by (rule sound_sentence_bounds)
  then show ?thesis
    by (simp add: sentences_def list_all_iff)
qed

theorem sentence_counts_within_bounds_witness:
  "Minesweeper_wf one_row_game
   \<and> list_all (consistent_obs one_row_game) [((0, 1), 1), ((0, 0), 0)]
   \<and> observe_all 10 (MinesweeperAI_init (game_height one_row_game) (game_width one_row_game))
         [((0, 1), 1), ((0, 0), 0)] \<noteq> None
   \<and> list_all (\<lambda>(cs, n). 0 \<le> n \<and> n \<le> int (fcard cs))
         (sentences (the (observe_all 10
            (MinesweeperAI_init (game_height one_row_game) (game_width one_row_game))
            [((0, 1), 1), ((0, 0), 0)])))"
proof -
  let ?r = "observe_all 10 (MinesweeperAI_init (game_height one_row_game) (game_width one_row_game))
              [((0, 1), 1), ((0, 0), 0)]"
  have w: "Minesweeper_wf one_row_game"
    by code_simp
  have c: "list_all (consistent_obs one_row_game) [((0, 1), 1), ((0, 0), 0)]"
    by code_simp
  have e: "?r \<noteq> None"
    by code_simp
  then obtain s where s: "?r = Some s" by blast
  have "list_all (\<lambda>(cs, n). 0 \<le> n \<and> n \<le> int (fcard cs)) (sentences s)"
    by (rule sentence_counts_within_bounds[OF c s])
  then have "list_all (\<lambda>(cs, n). 0 \<le> n \<and> n \<le> int (fcard cs)) (sentences (the ?r))"
    unfolding s option.sel .
  with w c e show ?thesis by blast
qed




end
